theory Spec2Isabelle
  imports Main
begin

section \<open>Strings\<close>

text \<open>
  A Python \<open>str\<close> is a sequence of Unicode code points and \<open>len\<close> counts code points,
  so a string is modelled as a list of code points (natural numbers), not as a list of
  bytes.
\<close>

type_synonym pychar = nat
type_synonym pystr = "pychar list"

text \<open>
  The characters listed at the inner loop of \<open>send_long_message\<close>:
  newline (10), full stop (46), exclamation mark (33), question mark (63), space (32).
\<close>

definition is_break :: "pychar \<Rightarrow> bool" where
  "is_break c \<longleftrightarrow> c \<in> set [10, 46, 33, 63, 32]"

text \<open>
  \<open>str.isspace\<close> for one code point: the characters Python's \<open>lstrip()\<close>
  (without argument) removes.
\<close>

definition isspace :: "pychar \<Rightarrow> bool" where
  "isspace c \<longleftrightarrow>
     c \<in> set [9, 10, 11, 12, 13, 28, 29, 30, 31, 32, 133, 160, 5760,
              8192, 8193, 8194, 8195, 8196, 8197, 8198, 8199, 8200, 8201, 8202,
              8232, 8233, 8239, 8287, 12288]"

definition lstrip :: "pystr \<Rightarrow> pystr" where
  "lstrip s = dropWhile isspace s"

text \<open>\<open>str(n)\<close> for a non-negative integer: its decimal digits.\<close>

fun str_nat :: "nat \<Rightarrow> pystr" where
  "str_nat n = (if n < 10 then [48 + n] else str_nat (n div 10) @ [48 + n mod 10])"

declare str_nat.simps [simp del]

section \<open>The message chunker: \<open>send_long_message\<close>\<close>

definition max_length :: nat where
  "max_length = 4096"

text \<open>
  The inner loop
  \<^verbatim>\<open>while cut_pos > 0 and text[cut_pos] not in ['\n', '.', '!', '?', ' ']: cut_pos -= 1\<close>
  as a function of the text and the current \<open>cut_pos\<close>. The loop is entered with
  \<open>cut_pos = max_length\<close> on a text longer than \<open>max_length\<close>, and \<open>text[cut_pos]\<close>
  is read only where \<open>cut_pos > 0\<close>, so every index read is in range.
\<close>

fun scan_back :: "pystr \<Rightarrow> nat \<Rightarrow> nat" where
  "scan_back text cut_pos =
     (if cut_pos > 0 \<and> \<not> is_break (text ! cut_pos)
      then scan_back text (cut_pos - 1)
      else cut_pos)"

declare scan_back.simps [simp del]

text \<open>Lines 221 to 226: where the text is cut.\<close>

definition find_cut :: "pystr \<Rightarrow> nat" where
  "find_cut text =
     (let cut_pos = scan_back text max_length
      in if cut_pos = 0 then max_length else cut_pos)"

text \<open>
  The outer loop \<^verbatim>\<open>while text:\<close> of lines 215 to 229, with the list \<open>parts\<close> it
  appends to. \<open>text[:cut_pos]\<close> is \<open>take\<close>, \<open>text[cut_pos:]\<close> is \<open>drop\<close>.
\<close>

function parts_loop :: "pystr \<Rightarrow> pystr list \<Rightarrow> pystr list" where
  "parts_loop text parts =
     (if text = [] then parts
      else if length text \<le> max_length then parts @ [text]
      else parts_loop (lstrip (drop (find_cut text) text))
                      (parts @ [take (find_cut text) text]))"
  by pat_completeness auto
termination
proof (relation "measure (\<lambda>(t, ps). length t)")
  show "wf (measure (\<lambda>(t :: pystr, ps :: pystr list). length t))" by simp
next
  fix t :: pystr and ps :: "pystr list"
  assume "t \<noteq> []"
  moreover have "0 < find_cut t"
    by (simp add: find_cut_def Let_def max_length_def)
  ultimately have "length (drop (find_cut t) t) < length t" by simp
  moreover have "length (lstrip (drop (find_cut t) t)) \<le> length (drop (find_cut t) t)"
    unfolding lstrip_def by (rule length_dropWhile_le)
  ultimately
  show "((lstrip (drop (find_cut t) t), ps @ [take (find_cut t) t]), (t, ps))
          \<in> measure (\<lambda>(t, ps). length t)"
    by simp
qed

declare parts_loop.simps [simp del]

text \<open>
  The segments a text is split into, before any continuation marker is put in front of
  them: the text itself when it fits (lines 210 and 211), the list \<open>parts\<close> after the
  loop otherwise.
\<close>

definition split_text :: "pystr \<Rightarrow> pystr list" where
  "split_text text =
     (if length text \<le> max_length then [text] else parts_loop text [])"

text \<open>
  The same loop, recording what \<open>lstrip()\<close> removes at line 229 instead of the parts:
  one run of whitespace after each cut, and the empty run after a last part that was
  appended whole. It takes the same branches as \<open>parts_loop\<close>.
\<close>

function gaps_loop :: "pystr \<Rightarrow> pystr list \<Rightarrow> pystr list" where
  "gaps_loop text gaps =
     (if text = [] then gaps
      else if length text \<le> max_length then gaps @ [ [] ]
      else gaps_loop (lstrip (drop (find_cut text) text))
                     (gaps @ [takeWhile isspace (drop (find_cut text) text)]))"
  by pat_completeness auto
termination
proof (relation "measure (\<lambda>(t, gs). length t)")
  show "wf (measure (\<lambda>(t :: pystr, gs :: pystr list). length t))" by simp
next
  fix t :: pystr and gs :: "pystr list"
  assume "t \<noteq> []"
  moreover have "0 < find_cut t"
    by (simp add: find_cut_def Let_def max_length_def)
  ultimately have "length (drop (find_cut t) t) < length t" by simp
  moreover have "length (lstrip (drop (find_cut t) t)) \<le> length (drop (find_cut t) t)"
    unfolding lstrip_def by (rule length_dropWhile_le)
  ultimately
  show "((lstrip (drop (find_cut t) t), gs @ [takeWhile isspace (drop (find_cut t) t)]), (t, gs))
          \<in> measure (\<lambda>(t, gs). length t)"
    by simp
qed

declare gaps_loop.simps [simp del]

definition stripped_gaps :: "pystr \<Rightarrow> pystr list" where
  "stripped_gaps text =
     (if length text \<le> max_length then [ [] ] else gaps_loop text [])"

text \<open>
  Lines 232 to 236: the first part is sent as it is, part \<open>i\<close> (counted from 0) of \<open>n\<close>
  behind the marker \<^verbatim>\<open>*...<continuation> (i+1/n)*\n\n\<close>, whose word is Cyrillic in the
  source.
\<close>

definition continuation_prefix :: "nat \<Rightarrow> nat \<Rightarrow> pystr" where
  "continuation_prefix i n =
     [42, 46, 46, 46, 1087, 1088, 1086, 1076, 1086, 1083, 1078, 1077, 1085, 1080, 1077, 32, 40]
     @ str_nat (i + 1) @ [47] @ str_nat n @ [41, 42, 10, 10]"

definition format_part :: "nat \<Rightarrow> nat \<Rightarrow> pystr \<Rightarrow> pystr" where
  "format_part n i part = (if i = 0 then part else continuation_prefix i n @ part)"

text \<open>
  \<open>send_long_message\<close>: the texts handed to \<open>reply_text\<close>, in order. Delivery itself (the
  transport) is outside the model.
\<close>

definition send_long_message :: "pystr \<Rightarrow> pystr list" where
  "send_long_message text =
     (if length text \<le> max_length then [text]
      else let parts = parts_loop text []
           in map (\<lambda>(i, part). format_part (length parts) i part) (enumerate 0 parts))"

section \<open>Conversation state and the handlers\<close>

datatype role = User | Model

record turn =
  role :: role
  parts :: "pystr list"

text \<open>An exception raised by a collaborator, with the text \<open>str(e)\<close> gives for it.\<close>

datatype exn = Exception pystr

fun str_exn :: "exn \<Rightarrow> pystr" where
  "str_exn (Exception msg) = msg"

text \<open>What a handler sends: a chat action (\<open>send_chat_action\<close>) or a message (\<open>reply_text\<close>).\<close>

datatype outbound = ChatAction pystr | ReplyText pystr

definition typing :: pystr where
  "typing = [116, 121, 112, 105, 110, 103]"

text \<open>The bot object: \<open>self.chat_history\<close>, a dictionary from user id to list of turns.\<close>

record bot =
  chat_history :: "int \<rightharpoonup> turn list"

definition history_of :: "bot \<Rightarrow> int \<Rightarrow> turn list" where
  "history_of self user_id = (case chat_history self user_id of None \<Rightarrow> [] | Some h \<Rightarrow> h)"

text \<open>
  The message of the \<open>except\<close> branch of \<open>handle_text_message\<close> (lines 160 to 163): a cross
  mark, a Cyrillic heading in bold, the cause between backquotes, and a Cyrillic request
  to try again.
\<close>

definition text_error_message :: "exn \<Rightarrow> pystr" where
  "text_error_message e =
     [10060, 32, 42, 42, 1055, 1088, 1086, 1080, 1079, 1086, 1096, 1083, 1072, 32,
      1086, 1096, 1080, 1073, 1082, 1072, 58, 42, 42, 10, 96]
     @ str_exn e @
     [96, 10, 10, 1055, 1086, 1087, 1088, 1086, 1073, 1091, 1081, 1090, 1077, 32,
      1077, 1097, 1077, 32, 1088, 1072, 1079, 46]"

text \<open>
  \<open>handle_text_message\<close> (lines 114 to 163). The Gemini call (\<open>start_chat\<close> with the
  history without its last entry, then \<open>send_message\<close> and \<open>response.text\<close>) is the
  parameter \<open>chat_send\<close>: it returns the reply, or the exception it raised. The slice
  \<open>[-20:]\<close> of a list longer than 20 keeps its last 20 entries. The result is the bot
  after the event and what was sent, the typing indicator first; sending itself is
  taken to succeed.
\<close>

definition handle_text_message ::
  "(turn list \<Rightarrow> pystr \<Rightarrow> exn + pystr) \<Rightarrow> bot \<Rightarrow> int \<Rightarrow> pystr \<Rightarrow> bot \<times> outbound list" where
  "handle_text_message chat_send self user_id user_text =
     (let h0 = (case chat_history self user_id of None \<Rightarrow> [] | Some h \<Rightarrow> h);
          h1 = h0 @ [\<lparr>role = User, parts = [user_text]\<rparr>];
          self1 = self\<lparr>chat_history := (chat_history self)(user_id \<mapsto> h1)\<rparr>
      in case chat_send (butlast h1) user_text of
           Inl e \<Rightarrow> (self1, [ChatAction typing, ReplyText (text_error_message e)])
         | Inr response_text \<Rightarrow>
             (let h2 = h1 @ [\<lparr>role = Model, parts = [response_text]\<rparr>];
                  h3 = (if length h2 > 20 then drop (length h2 - 20) h2 else h2);
                  self2 = self1\<lparr>chat_history := (chat_history self1)(user_id \<mapsto> h3)\<rparr>
              in (self2, ChatAction typing # map ReplyText (send_long_message response_text))))"

text \<open>The default prompt of line 187 (a Cyrillic sentence asking to describe the image).\<close>

definition default_prompt :: pystr where
  "default_prompt =
     [1054, 1087, 1080, 1096, 1080, 32, 1087, 1086, 1076, 1088, 1086, 1073, 1085, 1086, 32,
      1095, 1090, 1086, 32, 1074, 1080, 1076, 1080, 1096, 1100, 32, 1085, 1072, 32,
      1101, 1090, 1086, 1084, 32, 1080, 1079, 1086, 1073, 1088, 1072, 1078, 1077, 1085, 1080, 1080]"

text \<open>
  \<open>update.message.caption or "..."\<close>: the caption is \<open>None\<close> or a string, and \<open>or\<close> takes
  its right operand when the left one is \<open>None\<close> or the empty string.
\<close>

definition photo_prompt :: "pystr option \<Rightarrow> pystr" where
  "photo_prompt caption =
     (case caption of
        None \<Rightarrow> default_prompt
      | Some c \<Rightarrow> if c = [] then default_prompt else c)"

definition image_error_message :: "exn \<Rightarrow> pystr" where
  "image_error_message e =
     [10060, 32, 42, 42, 1054, 1096, 1080, 1073, 1082, 1072, 32, 1087, 1088, 1080, 32,
      1072, 1085, 1072, 1083, 1080, 1079, 1077, 32, 1080, 1079, 1086, 1073, 1088, 1072,
      1078, 1077, 1085, 1080, 1103, 58, 42, 42, 10, 96]
     @ str_exn e @ [96]"

definition image_label :: pystr where
  "image_label =
     [128444, 65039, 32, 42, 42, 1040, 1085, 1072, 1083, 1080, 1079, 32, 1080, 1079, 1086,
      1073, 1088, 1072, 1078, 1077, 1085, 1080, 1103, 58, 42, 42, 10, 10]"

text \<open>
  \<open>handle_photo_message\<close> (lines 165 to 204). \<open>photo\<close> is what fetching, downloading and
  opening the largest photo gives: the image, or the exception raised on the way.
  \<open>generate_content\<close> is the call of the vision model with the prompt and the image.
\<close>

definition handle_photo_message ::
  "(pystr \<Rightarrow> 'img \<Rightarrow> exn + pystr) \<Rightarrow> bot \<Rightarrow> exn + 'img \<Rightarrow> pystr option \<Rightarrow> bot \<times> outbound list" where
  "handle_photo_message generate_content self photo caption =
     (case photo of
        Inl e \<Rightarrow> (self, [ChatAction typing, ReplyText (image_error_message e)])
      | Inr img \<Rightarrow>
          (case generate_content (photo_prompt caption) img of
             Inl e \<Rightarrow> (self, [ChatAction typing, ReplyText (image_error_message e)])
           | Inr response_text \<Rightarrow>
               (self, ChatAction typing #
                      map ReplyText (send_long_message (image_label @ response_text)))))"

section \<open>Runs of events and the vocabulary of the properties\<close>

text \<open>\<open>__init__\<close>: the bot starts with the empty dictionary.\<close>

definition new_bot :: bot where
  "new_bot = \<lparr>chat_history = Map.empty\<rparr>"

text \<open>A Gemini call with a fixed outcome, whatever history and message it is given.\<close>

definition always :: "exn + pystr \<Rightarrow> turn list \<Rightarrow> pystr \<Rightarrow> exn + pystr" where
  "always outcome history message = outcome"

text \<open>
  A run of text-message events, handled one after the other. Each event carries the
  user, the text and what the Gemini call of that event returns or raises.
\<close>

fun run_text_events :: "bot \<Rightarrow> (int \<times> pystr \<times> (exn + pystr)) list \<Rightarrow> bot" where
  "run_text_events self [] = self"
| "run_text_events self ((user_id, user_text, outcome) # events) =
     run_text_events (fst (handle_text_message (always outcome) self user_id user_text)) events"

fun succeeded :: "int \<times> pystr \<times> (exn + pystr) \<Rightarrow> bool" where
  "succeeded (user_id, user_text, Inr response_text) = True"
| "succeeded (user_id, user_text, Inl e) = False"

text \<open>The two dictionaries appended at lines 131 and 146.\<close>

definition user_turn :: "pystr \<Rightarrow> turn" where
  "user_turn user_text = \<lparr>role = User, parts = [user_text]\<rparr>"

definition model_turn :: "pystr \<Rightarrow> turn" where
  "model_turn response_text = \<lparr>role = Model, parts = [response_text]\<rparr>"

text \<open>A history made of user+model pairs: even length, a user turn first, alternating.\<close>

fun paired :: "turn list \<Rightarrow> bool" where
  "paired [] = True"
| "paired [u] = False"
| "paired (u # m # rest) = (role u = User \<and> role m = Model \<and> paired rest)"

text \<open>
  A list of exchanges (the user's text, the model's reply): the turns they append, and
  the events of one user in which every Gemini call returns the reply.
\<close>

fun exchange_turns :: "(pystr \<times> pystr) list \<Rightarrow> turn list" where
  "exchange_turns [] = []"
| "exchange_turns ((user_text, response_text) # rest) =
     user_turn user_text # model_turn response_text # exchange_turns rest"

fun exchange_events :: "int \<Rightarrow> (pystr \<times> pystr) list \<Rightarrow> (int \<times> pystr \<times> (exn + pystr)) list" where
  "exchange_events user_id [] = []"
| "exchange_events user_id ((user_text, response_text) # rest) =
     (user_id, user_text, Inr response_text) # exchange_events user_id rest"

section \<open>The chunker: lemmas\<close>

subsection \<open>The two loops\<close>

lemma find_cut_pos: "0 < find_cut t"
  by (simp add: find_cut_def Let_def max_length_def)

lemma cut_shrinks: "t \<noteq> [] \<Longrightarrow> length (lstrip (drop (find_cut t) t)) < length t"
proof -
  assume "t \<noteq> []"
  moreover have "0 < find_cut t"
    by (simp add: find_cut_def Let_def max_length_def)
  ultimately have "length (drop (find_cut t) t) < length t" by simp
  moreover have "length (lstrip (drop (find_cut t) t)) \<le> length (drop (find_cut t) t)"
    unfolding lstrip_def by (rule length_dropWhile_le)
  ultimately show ?thesis by simp
qed

lemma parts_loop_long:
  "max_length < length t \<Longrightarrow>
     parts_loop t ps = parts_loop (lstrip (drop (find_cut t) t)) (ps @ [take (find_cut t) t])"
  by (subst parts_loop.simps) auto

lemma parts_loop_acc: "parts_loop t ps = ps @ parts_loop t []"
proof (induction "length t" arbitrary: t ps rule: less_induct)
  case less
  show ?case
  proof (cases "length t \<le> max_length")
    case True
    then show ?thesis by (simp add: parts_loop.simps [of t])
  next
    case False
    then have long: "max_length < length t" and ne: "t \<noteq> []" by auto
    let ?r = "lstrip (drop (find_cut t) t)"
    let ?p = "take (find_cut t) t"
    have "parts_loop t ps = parts_loop ?r (ps @ [?p])"
      using long by (rule parts_loop_long)
    also have "\<dots> = (ps @ [?p]) @ parts_loop ?r []"
      using cut_shrinks [OF ne] by (rule less.hyps)
    also have "\<dots> = ps @ ([?p] @ parts_loop ?r [])" by simp
    also have "[?p] @ parts_loop ?r [] = parts_loop ?r [?p]"
      using cut_shrinks [OF ne] by (rule less.hyps [symmetric])
    also have "parts_loop ?r [?p] = parts_loop t []"
      using parts_loop_long [OF long, of "[]"] by simp
    finally show ?thesis .
  qed
qed

lemma scan_back_stop:
  "is_break (t ! k) \<Longrightarrow> k \<le> n \<Longrightarrow> (\<forall>j. k < j \<and> j \<le> n \<longrightarrow> \<not> is_break (t ! j)) \<Longrightarrow> scan_back t n = k"
proof (induction t n rule: scan_back.induct)
  case (1 t n)
  show ?case
  proof (cases "k = n")
    case True
    with "1.prems" show ?thesis by (subst scan_back.simps) simp
  next
    case False
    with "1.prems" have "k < n" "\<not> is_break (t ! n)" by auto
    moreover from this "1.prems" have "scan_back t (n - 1) = k"
      by (intro "1.IH") auto
    ultimately show ?thesis by (subst scan_back.simps) simp
  qed
qed

lemma scan_back_none:
  "(\<forall>j. 0 < j \<and> j \<le> n \<longrightarrow> \<not> is_break (t ! j)) \<Longrightarrow> scan_back t n = 0"
proof (induction t n rule: scan_back.induct)
  case (1 t n)
  show ?case
  proof (cases "n = 0")
    case True
    then show ?thesis by (subst scan_back.simps) simp
  next
    case False
    with "1.prems" have "\<not> is_break (t ! n)" by auto
    moreover from False this "1.prems" have "scan_back t (n - 1) = 0"
      by (intro "1.IH") auto
    ultimately show ?thesis using False by (subst scan_back.simps) simp
  qed
qed

lemma scan_back_le: "scan_back t n \<le> n"
proof (induction t n rule: scan_back.induct)
  case (1 t n)
  show ?case
  proof (cases "n > 0 \<and> \<not> is_break (t ! n)")
    case True
    then have "scan_back t n = scan_back t (n - 1)"
      by (subst scan_back.simps) simp
    with "1.IH" True show ?thesis by simp
  next
    case False
    then have "scan_back t n = n"
      by (subst scan_back.simps) auto
    then show ?thesis by simp
  qed
qed

lemma find_cut_le: "find_cut t \<le> max_length"
  using scan_back_le [of t max_length] by (simp add: find_cut_def Let_def)

lemma find_cut_at_break:
  assumes "0 < k" "k \<le> max_length" "is_break (t ! k)"
    and "\<forall>j. k < j \<and> j \<le> max_length \<longrightarrow> \<not> is_break (t ! j)"
  shows "find_cut t = k"
proof -
  have "scan_back t max_length = k"
    using assms(3,2,4) by (rule scan_back_stop)
  with assms(1) show ?thesis by (simp add: find_cut_def)
qed

lemma find_cut_hard:
  assumes "\<forall>j. 0 < j \<and> j \<le> max_length \<longrightarrow> \<not> is_break (t ! j)"
  shows "find_cut t = max_length"
proof -
  have "scan_back t max_length = 0"
    using assms by (rule scan_back_none)
  then show ?thesis by (simp add: find_cut_def)
qed

lemma parts_loop_unfold:
  "parts_loop t [] =
     (if t = [] then []
      else if length t \<le> max_length then [t]
      else take (find_cut t) t # parts_loop (lstrip (drop (find_cut t) t)) [])"
proof (cases "length t \<le> max_length")
  case True
  then show ?thesis by (simp add: parts_loop.simps [of t])
next
  case False
  then have long: "max_length < length t" by simp
  have "parts_loop t [] = parts_loop (lstrip (drop (find_cut t) t)) [take (find_cut t) t]"
    using parts_loop_long [OF long, of "[]"] by simp
  also have "\<dots> = [take (find_cut t) t] @ parts_loop (lstrip (drop (find_cut t) t)) []"
    by (rule parts_loop_acc)
  finally show ?thesis using False by auto
qed

lemma split_text_long:
  "max_length < length t \<Longrightarrow>
     split_text t = take (find_cut t) t # parts_loop (lstrip (drop (find_cut t) t)) []"
proof -
  assume long: "max_length < length t"
  then have "t \<noteq> []" by auto
  with long have "parts_loop t [] =
      take (find_cut t) t # parts_loop (lstrip (drop (find_cut t) t)) []"
    by (subst parts_loop_unfold) simp
  with long show ?thesis by (simp add: split_text_def)
qed

lemma parts_loop_bounded: "p \<in> set (parts_loop t []) \<Longrightarrow> length p \<le> max_length"
proof (induction "length t" arbitrary: t rule: less_induct)
  case less
  show ?case
  proof (cases "length t \<le> max_length")
    case True
    with less.prems show ?thesis
      by (subst (asm) parts_loop_unfold) (auto split: if_splits)
  next
    case False
    then have ne: "t \<noteq> []" by auto
    from False less.prems
    have "p = take (find_cut t) t \<or> p \<in> set (parts_loop (lstrip (drop (find_cut t) t)) [])"
      by (subst (asm) parts_loop_unfold) (auto split: if_splits)
    then show ?thesis
    proof
      assume "p = take (find_cut t) t"
      then show ?thesis using find_cut_le [of t] by simp
    next
      assume "p \<in> set (parts_loop (lstrip (drop (find_cut t) t)) [])"
      with cut_shrinks [OF ne] show ?thesis by (rule less.hyps)
    qed
  qed
qed

lemma parts_loop_nonempty: "p \<in> set (parts_loop t []) \<Longrightarrow> p \<noteq> []"
proof (induction "length t" arbitrary: t rule: less_induct)
  case less
  show ?case
  proof (cases "length t \<le> max_length")
    case True
    with less.prems show ?thesis
      by (subst (asm) parts_loop_unfold) (auto split: if_splits)
  next
    case False
    then have ne: "t \<noteq> []" by auto
    from False less.prems
    have "p = take (find_cut t) t \<or> p \<in> set (parts_loop (lstrip (drop (find_cut t) t)) [])"
      by (subst (asm) parts_loop_unfold) (auto split: if_splits)
    then show ?thesis
    proof
      assume "p = take (find_cut t) t"
      then show ?thesis using find_cut_pos [of t] ne by simp
    next
      assume "p \<in> set (parts_loop (lstrip (drop (find_cut t) t)) [])"
      with cut_shrinks [OF ne] show ?thesis by (rule less.hyps)
    qed
  qed
qed


lemma gaps_loop_long:
  "max_length < length t \<Longrightarrow>
     gaps_loop t gs =
       gaps_loop (lstrip (drop (find_cut t) t)) (gs @ [takeWhile isspace (drop (find_cut t) t)])"
  by (subst gaps_loop.simps) auto

lemma gaps_loop_acc: "gaps_loop t gs = gs @ gaps_loop t []"
proof (induction "length t" arbitrary: t gs rule: less_induct)
  case less
  show ?case
  proof (cases "length t \<le> max_length")
    case True
    then show ?thesis by (simp add: gaps_loop.simps [of t])
  next
    case False
    then have long: "max_length < length t" and ne: "t \<noteq> []" by auto
    let ?r = "lstrip (drop (find_cut t) t)"
    let ?g = "takeWhile isspace (drop (find_cut t) t)"
    have "gaps_loop t gs = gaps_loop ?r (gs @ [?g])"
      using long by (rule gaps_loop_long)
    also have "\<dots> = (gs @ [?g]) @ gaps_loop ?r []"
      using cut_shrinks [OF ne] by (rule less.hyps)
    also have "\<dots> = gs @ ([?g] @ gaps_loop ?r [])" by simp
    also have "[?g] @ gaps_loop ?r [] = gaps_loop ?r [?g]"
      using cut_shrinks [OF ne] by (rule less.hyps [symmetric])
    also have "gaps_loop ?r [?g] = gaps_loop t []"
      using gaps_loop_long [OF long, of "[]"] by simp
    finally show ?thesis .
  qed
qed

lemma gaps_loop_unfold:
  "gaps_loop t [] =
     (if t = [] then []
      else if length t \<le> max_length then [ [] ]
      else takeWhile isspace (drop (find_cut t) t) # gaps_loop (lstrip (drop (find_cut t) t)) [])"
proof (cases "length t \<le> max_length")
  case True
  then show ?thesis by (simp add: gaps_loop.simps [of t])
next
  case False
  then have long: "max_length < length t" by simp
  have "gaps_loop t [] =
          gaps_loop (lstrip (drop (find_cut t) t)) [takeWhile isspace (drop (find_cut t) t)]"
    using gaps_loop_long [OF long, of "[]"] by simp
  also have "\<dots> = [takeWhile isspace (drop (find_cut t) t)]
                      @ gaps_loop (lstrip (drop (find_cut t) t)) []"
    by (rule gaps_loop_acc)
  finally show ?thesis using False by auto
qed

lemma loops_same_length: "length (gaps_loop t []) = length (parts_loop t [])"
proof (induction "length t" arbitrary: t rule: less_induct)
  case less
  show ?case
  proof (cases "length t \<le> max_length")
    case True
    then show ?thesis by (simp add: gaps_loop_unfold [of t] parts_loop_unfold [of t])
  next
    case False
    then have ne: "t \<noteq> []" by auto
    from less.hyps [OF cut_shrinks [OF ne]] False ne
    show ?thesis by (simp add: gaps_loop_unfold [of t] parts_loop_unfold [of t])
  qed
qed

lemma loops_roundtrip:
  "concat (map2 (@) (parts_loop t []) (gaps_loop t [])) = t"
proof (induction "length t" arbitrary: t rule: less_induct)
  case less
  show ?case
  proof (cases "length t \<le> max_length")
    case True
    then show ?thesis by (simp add: gaps_loop_unfold [of t] parts_loop_unfold [of t])
  next
    case False
    then have ne: "t \<noteq> []" by auto
    let ?c = "find_cut t"
    have "concat (map2 (@) (parts_loop t []) (gaps_loop t [])) =
            take ?c t @ takeWhile isspace (drop ?c t)
            @ concat (map2 (@) (parts_loop (lstrip (drop ?c t)) []) (gaps_loop (lstrip (drop ?c t)) []))"
      using False ne by (simp add: gaps_loop_unfold [of t] parts_loop_unfold [of t])
    also have "\<dots> = take ?c t @ takeWhile isspace (drop ?c t) @ lstrip (drop ?c t)"
      using less.hyps [OF cut_shrinks [OF ne]] by simp
    also have "\<dots> = take ?c t @ drop ?c t"
      by (simp add: lstrip_def)
    finally show ?thesis by simp
  qed
qed

lemma gaps_loop_space: "g \<in> set (gaps_loop t []) \<Longrightarrow> c \<in> set g \<Longrightarrow> isspace c"
proof (induction "length t" arbitrary: t rule: less_induct)
  case less
  show ?case
  proof (cases "length t \<le> max_length")
    case True
    with less.prems show ?thesis
      by (subst (asm) gaps_loop_unfold) (auto split: if_splits)
  next
    case False
    then have ne: "t \<noteq> []" by auto
    from False less.prems
    have "g = takeWhile isspace (drop (find_cut t) t)
            \<or> g \<in> set (gaps_loop (lstrip (drop (find_cut t) t)) [])"
      by (subst (asm) gaps_loop_unfold) (auto split: if_splits)
    then show ?thesis
    proof
      assume "g = takeWhile isspace (drop (find_cut t) t)"
      with less.prems(2) show ?thesis by (auto dest: set_takeWhileD)
    next
      assume "g \<in> set (gaps_loop (lstrip (drop (find_cut t) t)) [])"
      with cut_shrinks [OF ne] less.prems(2) show ?thesis by (intro less.hyps) auto
    qed
  qed
qed

subsection \<open>Three texts of more than 4096 characters\<close>

text \<open>
  The letter \<open>a\<close> is 97 and the space is 32. The first text has 5000 characters and one
  space, at index 4080; the second is 4096 letters and a final space; the third is a
  space followed by 4999 letters.
\<close>

lemma ex_space_4080:
  "split_text (replicate 4080 97 @ 32 # replicate 919 97) = [replicate 4080 97, replicate 919 97]"
proof -
  let ?t = "replicate 4080 (97::nat) @ 32 # replicate 919 97"
  have len: "max_length < length ?t" by (simp add: max_length_def)
  have cut: "find_cut ?t = 4080"
    by (rule find_cut_at_break) (auto simp: max_length_def is_break_def nth_append nth_Cons')
  have rest: "lstrip (drop 4080 ?t) = replicate 919 97"
    by (simp add: lstrip_def isspace_def)
  have "parts_loop (replicate 919 97) [] = [replicate 919 (97::nat)]"
    by (subst parts_loop_unfold) (simp add: max_length_def)
  with split_text_long [OF len] cut rest show ?thesis by simp
qed

lemma ex_trailing_space:
  "split_text (replicate 4096 97 @ [32]) = [replicate 4096 97]"
proof -
  let ?t = "replicate 4096 (97::nat) @ [32]"
  have len: "max_length < length ?t" by (simp add: max_length_def)
  have cut: "find_cut ?t = 4096"
    by (rule find_cut_at_break) (auto simp: max_length_def is_break_def nth_append nth_Cons')
  have rest: "lstrip (drop 4096 ?t) = []"
    by (simp add: lstrip_def isspace_def)
  have "parts_loop [] [] = ([] :: pystr list)"
    by (subst parts_loop_unfold) simp
  with split_text_long [OF len] cut rest show ?thesis by simp
qed

lemma ex_leading_space:
  "split_text (32 # replicate 4999 97) = [32 # replicate 4095 97, replicate 904 97]"
proof -
  let ?t = "32 # replicate 4999 (97::nat)"
  have len: "max_length < length ?t" by (simp add: max_length_def)
  have cut: "find_cut ?t = 4096"
    unfolding max_length_def [symmetric]
    by (rule find_cut_hard) (auto simp: max_length_def is_break_def nth_append nth_Cons')
  have rest: "lstrip (drop 4096 ?t) = replicate 904 97"
    by (simp add: lstrip_def isspace_def)
  have "parts_loop (replicate 904 97) [] = [replicate 904 (97::nat)]"
    by (subst parts_loop_unfold) (simp add: max_length_def)
  with split_text_long [OF len] cut rest show ?thesis by simp
qed


lemma ex_trailing_space_gaps:
  "stripped_gaps (replicate 4096 97 @ [32]) = [ [32] ]"
proof -
  let ?t = "replicate 4096 (97::nat) @ [32]"
  have len: "max_length < length ?t" by (simp add: max_length_def)
  have cut: "find_cut ?t = 4096"
    by (rule find_cut_at_break) (auto simp: max_length_def is_break_def nth_append nth_Cons')
  have rest: "lstrip (drop 4096 ?t) = []"
    by (simp add: lstrip_def isspace_def)
  have gap: "takeWhile isspace (drop 4096 ?t) = [32]"
    by (simp add: isspace_def)
  have "gaps_loop [] [] = ([] :: pystr list)"
    by (subst gaps_loop_unfold) simp
  moreover have "gaps_loop ?t [] =
      takeWhile isspace (drop (find_cut ?t) ?t) # gaps_loop (lstrip (drop (find_cut ?t) ?t)) []"
    using len by (subst gaps_loop_unfold) simp
  ultimately show ?thesis using len cut rest gap by (simp add: stripped_gaps_def)
qed

section \<open>The chunker: properties\<close>

text \<open>
  C7. A text of at most \<open>max_length\<close> (4096) characters is split into exactly one
  segment, the text itself, so the total number of segments is 1 and the one message
  sent is the text; the empty text gives the single empty segment.
\<close>

theorem C7_short_text_single_segment:
  "length text \<le> max_length \<Longrightarrow>
     split_text text = [text] \<and> length (split_text text) = 1 \<and>
     send_long_message text = [text]"
  by (simp add: split_text_def send_long_message_def)

theorem C7_short_text_single_segment_witness:
  "length ([] :: pystr) \<le> max_length \<and>
   split_text [] = [ [] ] \<and> length (split_text []) = 1 \<and> send_long_message [] = [ [] ]"
  using C7_short_text_single_segment [of "[]"] by simp

text \<open>
  C1, as the specification states it: the cut character is included in the emitted
  part, so that a text of 5000 characters whose last break character up to index 4096
  is a space at index 4080 has \<open>text[0:4081]\<close> as its first segment. The code emits
  \<open>text[:cut_pos]\<close>, which ends before the cut character: on such a text the first
  segment is the 4080 letters before the space, not the 4081 characters that include it.
\<close>

theorem C1_cut_character_included_counterexample:
  "length (replicate 4080 97 @ 32 # replicate 919 (97::nat)) = 5000 \<and>
   (replicate 4080 97 @ 32 # replicate 919 (97::nat)) ! 4080 = 32 \<and>
   split_text (replicate 4080 97 @ 32 # replicate 919 97)
     = [replicate 4080 97, replicate 919 97] \<and>
   hd (split_text (replicate 4080 97 @ 32 # replicate 919 97))
     \<noteq> take 4081 (replicate 4080 97 @ 32 # replicate 919 97)"
  by (simp add: ex_space_4080 nth_append)

text \<open>
  C1, amended. For a text longer than \<open>max_length\<close>, let \<open>k\<close> be the largest index
  in \<open>1..max_length\<close> whose character is a break character. The first segment is
  \<open>text[0:k]\<close>, of \<open>k\<close> characters, so it ends just before the cut character; the
  remainder \<open>text[k:]\<close> begins with the cut character, and the later segments are those
  of the remainder with its leading whitespace stripped. When that stripped remainder
  is empty, the first segment is the only one; when it is not empty and fits in
  \<open>max_length\<close>, it is the second and last segment. So a text of at most
  \<open>k + max_length\<close> characters (one of 5000 characters with \<open>k = 4080\<close>, for
  instance) is split into \<open>text[0:k]\<close>, followed by the stripped remainder if that is
  not empty.
\<close>

theorem C1_cut_before_break:
  assumes "max_length < length text"
    and "0 < k" and "k \<le> max_length" and "is_break (text ! k)"
    and "\<forall>j. k < j \<and> j \<le> max_length \<longrightarrow> \<not> is_break (text ! j)"
  shows "split_text text = take k text # parts_loop (lstrip (drop k text)) [] \<and>
         length (take k text) = k \<and>
         drop k text = text ! k # drop (Suc k) text \<and>
         (lstrip (drop k text) \<noteq> [] \<and> length (lstrip (drop k text)) \<le> max_length \<longrightarrow>
            split_text text = [take k text, lstrip (drop k text)]) \<and>
         (lstrip (drop k text) = [] \<longrightarrow> split_text text = [take k text]) \<and>
         (length text \<le> k + max_length \<longrightarrow>
            split_text text =
              take k text # (if lstrip (drop k text) = [] then [] else [lstrip (drop k text)]))"
proof -
  have cut: "find_cut text = k"
    using assms(2-5) by (rule find_cut_at_break)
  have first: "split_text text = take k text # parts_loop (lstrip (drop k text)) []"
    using split_text_long [OF assms(1)] cut by simp
  have klen: "k < length text" using assms(1,3) by simp
  then have "length (take k text) = k" by simp
  moreover have "drop k text = text ! k # drop (Suc k) text"
    using klen by (simp add: Cons_nth_drop_Suc)
  moreover have "lstrip (drop k text) \<noteq> [] \<and> length (lstrip (drop k text)) \<le> max_length \<longrightarrow>
            split_text text = [take k text, lstrip (drop k text)]"
    using first by (simp add: parts_loop_unfold [of "lstrip (drop k text)"])
  moreover have "lstrip (drop k text) = [] \<longrightarrow> split_text text = [take k text]"
    using first by (simp add: parts_loop_unfold [of "lstrip (drop k text)"])
  moreover have "split_text text =
      take k text # (if lstrip (drop k text) = [] then [] else [lstrip (drop k text)])"
    if short: "length text \<le> k + max_length"
  proof -
    have "length (lstrip (drop k text)) \<le> length (drop k text)"
      unfolding lstrip_def by (rule length_dropWhile_le)
    with short have "length (lstrip (drop k text)) \<le> max_length" by simp
    with first show ?thesis by (simp add: parts_loop_unfold [of "lstrip (drop k text)"])
  qed
  ultimately show ?thesis using first by simp
qed

theorem C1_cut_before_break_witness:
  "max_length < length (replicate 4080 97 @ 32 # replicate 919 (97::nat)) \<and>
   is_break ((replicate 4080 97 @ 32 # replicate 919 (97::nat)) ! 4080) \<and>
   length (replicate 4080 97 @ 32 # replicate 919 (97::nat)) \<le> 4080 + max_length \<and>
   split_text (replicate 4080 97 @ 32 # replicate 919 97)
     = [take 4080 (replicate 4080 97 @ 32 # replicate 919 97),
        lstrip (drop 4080 (replicate 4080 97 @ 32 # replicate 919 97))] \<and>
   take 4080 (replicate 4080 97 @ 32 # replicate 919 (97::nat)) = replicate 4080 97 \<and>
   lstrip (drop 4080 (replicate 4080 97 @ 32 # replicate 919 97)) = replicate 919 97 \<and>
   max_length < length (replicate 4080 97 @ 32 # replicate 919 (9::nat)) \<and>
   is_break ((replicate 4080 97 @ 32 # replicate 919 (9::nat)) ! 4080) \<and>
   lstrip (drop 4080 (replicate 4080 97 @ 32 # replicate 919 9)) = [] \<and>
   split_text (replicate 4080 97 @ 32 # replicate 919 9) = [replicate 4080 97]"
proof -
  let ?t = "replicate 4080 (97::nat) @ 32 # replicate 919 97"
  let ?u = "replicate 4080 (97::nat) @ 32 # replicate 919 9"
  have h1: "max_length < length ?t" by (simp add: max_length_def)
  have h2: "0 < (4080::nat)" by simp
  have h3: "4080 \<le> max_length" by (simp add: max_length_def)
  have h4: "is_break (?t ! 4080)" by (simp add: is_break_def nth_append)
  have h5: "\<forall>j. 4080 < j \<and> j \<le> max_length \<longrightarrow> \<not> is_break (?t ! j)"
    by (auto simp: max_length_def is_break_def nth_append nth_Cons')
  have h6: "length ?t \<le> 4080 + max_length" by (simp add: max_length_def)
  have rest: "lstrip (drop 4080 ?t) = replicate 919 97"
    by (simp add: lstrip_def isspace_def)
  have small: "lstrip (drop 4080 ?t) \<noteq> [] \<and> length (lstrip (drop 4080 ?t)) \<le> max_length"
    unfolding rest by (simp add: max_length_def)
  from C1_cut_before_break [OF h1 h2 h3 h4 h5] small
  have two: "split_text ?t = [take 4080 ?t, lstrip (drop 4080 ?t)]" by blast
  have g1: "max_length < length ?u" by (simp add: max_length_def)
  have g4: "is_break (?u ! 4080)" by (simp add: is_break_def nth_append)
  have g5: "\<forall>j. 4080 < j \<and> j \<le> max_length \<longrightarrow> \<not> is_break (?u ! j)"
    by (auto simp: max_length_def is_break_def nth_append nth_Cons')
  have gone: "lstrip (drop 4080 ?u) = []"
    by (simp add: lstrip_def isspace_def)
  from C1_cut_before_break [OF g1 h2 h3 g4 g5] gone
  have "split_text ?u = [take 4080 ?u]" by blast
  then have one: "split_text ?u = [replicate 4080 97]" by simp
  from h1 h4 h6 two rest g1 g4 gone one show ?thesis by simp
qed

text \<open>
  C10. When no index in \<open>1..max_length\<close> carries a break character, the scan reaches
  index 0 and the text is cut after exactly \<open>max_length\<close> characters, whatever the
  character at index 0 is. The cut position is never 0, and every segment but the
  last is non-empty.
\<close>

theorem C10_hard_cut_when_scan_reaches_0:
  "(max_length < length text \<and> (\<forall>j. 0 < j \<and> j \<le> max_length \<longrightarrow> \<not> is_break (text ! j)) \<longrightarrow>
      find_cut text = max_length \<and>
      split_text text = take max_length text # parts_loop (lstrip (drop max_length text)) [] \<and>
      length (take max_length text) = max_length) \<and>
   0 < find_cut text \<and>
   (\<forall>p\<in>set (butlast (split_text text)). p \<noteq> [])"
proof -
  have "find_cut text = max_length \<and>
      split_text text = take max_length text # parts_loop (lstrip (drop max_length text)) [] \<and>
      length (take max_length text) = max_length"
    if long: "max_length < length text"
      and nb: "\<forall>j. 0 < j \<and> j \<le> max_length \<longrightarrow> \<not> is_break (text ! j)"
  proof -
    have "find_cut text = max_length" using nb by (rule find_cut_hard)
    with split_text_long [OF long] long show ?thesis by simp
  qed
  moreover have "\<forall>p\<in>set (butlast (split_text text)). p \<noteq> []"
  proof (cases "length text \<le> max_length")
    case True
    then show ?thesis by (simp add: split_text_def)
  next
    case False
    then show ?thesis
      by (auto simp: split_text_def dest: in_set_butlastD parts_loop_nonempty)
  qed
  ultimately show ?thesis using find_cut_pos [of "text"] by blast
qed

theorem C10_hard_cut_when_scan_reaches_0_witness:
  "is_break ((32 # replicate 4999 97) ! 0) \<and>
   max_length < length (32 # replicate 4999 (97::nat)) \<and>
   find_cut (32 # replicate 4999 97) = max_length \<and>
   split_text (32 # replicate 4999 97) = [32 # replicate 4095 97, replicate 904 97] \<and>
   32 # replicate 4095 97 \<in> set (butlast (split_text (32 # replicate 4999 97))) \<and>
   32 # replicate 4095 (97::nat) \<noteq> []"
proof -
  let ?t = "32 # replicate 4999 (97::nat)"
  have h1: "max_length < length ?t" by (simp add: max_length_def)
  have h2: "\<forall>j. 0 < j \<and> j \<le> max_length \<longrightarrow> \<not> is_break (?t ! j)"
    by (auto simp: max_length_def is_break_def nth_append nth_Cons')
  from C10_hard_cut_when_scan_reaches_0 [of ?t] h1 h2
  have "find_cut ?t = max_length" by blast
  moreover have "is_break (?t ! 0)" by (simp add: is_break_def)
  ultimately show ?thesis using h1 by (simp add: ex_leading_space)
qed

text \<open>C5. No segment the text is split into is longer than \<open>max_length\<close> (4096).\<close>

theorem C5_segment_length_bounded:
  "\<forall>p\<in>set (split_text text). length p \<le> max_length"
proof (cases "length text \<le> max_length")
  case True
  then show ?thesis by (simp add: split_text_def)
next
  case False
  then show ?thesis by (auto simp: split_text_def dest: parts_loop_bounded)
qed

theorem C5_segment_length_bounded_witness:
  "replicate 4096 97 \<in> set (split_text (replicate 5000 97)) \<and>
   length (replicate 4096 (97::nat)) \<le> max_length"
proof -
  let ?t = "replicate 5000 (97::nat)"
  have len: "max_length < length ?t" by (simp add: max_length_def)
  have cut: "find_cut ?t = 4096"
    unfolding max_length_def [symmetric]
    by (rule find_cut_hard) (auto simp: max_length_def is_break_def)
  have "split_text ?t = replicate 4096 97 # parts_loop (lstrip (replicate 904 97)) []"
    using split_text_long [OF len] cut by simp
  then have "replicate 4096 97 \<in> set (split_text ?t)" by simp
  with C5_segment_length_bounded [of ?t] show ?thesis by blast
qed

text \<open>
  C4, as the specification states it: the segments, with the whitespace stripped
  between consecutive segments put back, give the original text. When the remainder
  after the last cut is whitespace only, \<open>lstrip()\<close> empties it and the loop ends
  without a further segment: 4096 letters and a final space give one segment, the
  4096 letters, there are no two consecutive segments to put whitespace between, and
  the final space is lost.
\<close>

theorem C4_roundtrip_between_segments_counterexample:
  "split_text (replicate 4096 97 @ [32]) = [replicate 4096 97] \<and>
   concat (split_text (replicate 4096 97 @ [32])) \<noteq> replicate 4096 97 @ [32]"
  by (simp add: ex_trailing_space)

text \<open>
  C4, amended. Put back after each segment the whitespace that \<open>lstrip()\<close> removed
  after its cut (\<open>stripped_gaps\<close>: one run per segment, empty after a last segment
  that was appended whole, and consisting of whitespace only): the concatenation is
  the original text. The run after the last segment is not empty exactly when the
  remainder after the last cut was whitespace only.
\<close>

theorem C4_roundtrip_with_stripped_whitespace:
  "length (stripped_gaps text) = length (split_text text) \<and>
   concat (map2 (@) (split_text text) (stripped_gaps text)) = text \<and>
   (\<forall>g\<in>set (stripped_gaps text). \<forall>c\<in>set g. isspace c)"
proof (cases "length text \<le> max_length")
  case True
  then show ?thesis by (simp add: stripped_gaps_def split_text_def)
next
  case False
  then have "stripped_gaps text = gaps_loop text []" "split_text text = parts_loop text []"
    by (simp_all add: stripped_gaps_def split_text_def)
  then show ?thesis
    using loops_same_length [of "text"] loops_roundtrip [of "text"] gaps_loop_space [of _ "text"]
    by auto
qed

theorem C4_roundtrip_with_stripped_whitespace_witness:
  "split_text (replicate 4096 97 @ [32]) = [replicate 4096 97] \<and>
   stripped_gaps (replicate 4096 97 @ [32]) = [ [32] ] \<and>
   [32] \<in> set (stripped_gaps (replicate 4096 97 @ [32])) \<and> 32 \<in> set [32::nat] \<and> isspace 32 \<and>
   concat (map2 (@) [replicate 4096 97] [ [32] ]) = replicate 4096 97 @ [32::nat]"
  using C4_roundtrip_with_stripped_whitespace [of "replicate 4096 97 @ [32]"]
  by (simp add: ex_trailing_space ex_trailing_space_gaps)

section \<open>The handlers: lemmas\<close>

lemma handle_ok_history:
  assumes "chat_send (history_of self u) t = Inr r"
  shows "history_of (fst (handle_text_message chat_send self u t)) u =
           drop (length (history_of self u) + 2 - 20) (history_of self u @ [user_turn t, model_turn r])"
  using assms
  by (simp add: handle_text_message_def history_of_def Let_def user_turn_def model_turn_def)

lemma handle_fail:
  assumes "chat_send (history_of self u) t = Inl e"
  shows "history_of (fst (handle_text_message chat_send self u t)) u =
           history_of self u @ [user_turn t]"
    and "snd (handle_text_message chat_send self u t) =
           [ChatAction typing, ReplyText (text_error_message e)]"
  using assms
  by (simp_all add: handle_text_message_def history_of_def Let_def user_turn_def)

lemma handle_other:
  "u' \<noteq> u \<Longrightarrow> chat_history (fst (handle_text_message chat_send self u t)) u' = chat_history self u'"
  by (simp add: handle_text_message_def Let_def split: sum.splits)

lemma handle_other_history:
  "u' \<noteq> u \<Longrightarrow> history_of (fst (handle_text_message chat_send self u t)) u' = history_of self u'"
  by (simp add: history_of_def handle_other)

lemma run_text_events_append:
  "run_text_events self (xs @ ys) = run_text_events (run_text_events self xs) ys"
  by (induction self xs rule: run_text_events.induct) simp_all

lemma paired_even: "paired h \<Longrightarrow> even (length h)"
  by (induction h rule: paired.induct) simp_all

lemma paired_snoc: "paired h \<Longrightarrow> paired (h @ [user_turn t, model_turn r])"
  by (induction h rule: paired.induct) (simp_all add: user_turn_def model_turn_def)

lemma paired_drop2: "paired h \<Longrightarrow> paired (drop 2 h)"
  by (cases h rule: paired.cases) simp_all

lemma paired_hd: "paired h \<Longrightarrow> h \<noteq> [] \<Longrightarrow> role (hd h) = User"
  by (cases h rule: paired.cases) simp_all

lemma trim_pairs:
  assumes "paired h" "length h \<le> 20"
  shows "drop (length h + 2 - 20) (h @ [user_turn t, model_turn r]) =
           (if length h = 20 then drop 2 h else h) @ [user_turn t, model_turn r]"
proof -
  from assms(1) have "even (length h)" by (rule paired_even)
  with assms(2) have "length h = 20 \<or> length h \<le> 18"
    by presburger
  then show ?thesis by auto
qed


lemma step_invariant:
  assumes "paired h" "length h \<le> 20"
  shows "paired (drop (length h + 2 - 20) (h @ [user_turn t, model_turn r])) \<and>
         length (drop (length h + 2 - 20) (h @ [user_turn t, model_turn r])) \<le> 20"
proof -
  have "paired ((if length h = 20 then drop 2 h else h) @ [user_turn t, model_turn r])"
    using assms(1) by (auto intro: paired_snoc paired_drop2)
  moreover have "length ((if length h = 20 then drop 2 h else h) @ [user_turn t, model_turn r]) \<le> 20"
  proof -
    from assms(1) have "even (length h)" by (rule paired_even)
    with assms(2) have "length h = 20 \<or> length h \<le> 18" by presburger
    then show ?thesis by auto
  qed
  ultimately show ?thesis unfolding trim_pairs [OF assms] by simp
qed

lemma run_all_ok_invariant:
  assumes "\<forall>ev\<in>set events. succeeded ev"
    and "paired (history_of self u)" and "length (history_of self u) \<le> 20"
  shows "paired (history_of (run_text_events self events) u) \<and>
         length (history_of (run_text_events self events) u) \<le> 20"
  using assms
proof (induction self events rule: run_text_events.induct)
  case (1 self)
  then show ?case by simp
next
  case (2 self user_id user_text outcome events)
  from "2.prems"(1) obtain r where r: "outcome = Inr r"
    by (cases outcome) auto
  let ?self' = "fst (handle_text_message (always outcome) self user_id user_text)"
  have "paired (history_of ?self' u) \<and> length (history_of ?self' u) \<le> 20"
  proof (cases "user_id = u")
    case True
    have "history_of ?self' u =
            drop (length (history_of self u) + 2 - 20)
                 (history_of self u @ [user_turn user_text, model_turn r])"
      unfolding True [symmetric] by (rule handle_ok_history) (simp add: r always_def)
    with step_invariant [OF "2.prems"(2,3)] show ?thesis by simp
  next
    case False
    then have "history_of ?self' u = history_of self u"
      by (simp add: handle_other_history)
    with "2.prems" show ?thesis by simp
  qed
  with "2.prems"(1) "2.IH" show ?case by simp
qed

lemma exchange_events_snoc:
  "exchange_events u (xs @ [(t, r)]) = exchange_events u xs @ [(u, t, Inr r)]"
  by (induction u xs rule: exchange_events.induct) simp_all

lemma exchange_turns_snoc:
  "exchange_turns (xs @ [(t, r)]) = exchange_turns xs @ [user_turn t, model_turn r]"
  by (induction xs rule: exchange_turns.induct) simp_all

lemma length_exchange_turns: "length (exchange_turns xs) = 2 * length xs"
  by (induction xs rule: exchange_turns.induct) simp_all

lemma paired_exchange_turns: "paired (exchange_turns xs)"
  by (induction xs rule: exchange_turns.induct) (simp_all add: user_turn_def model_turn_def)

lemma paired_drop_even: "paired h \<Longrightarrow> paired (drop (2 * k) h)"
proof (induction k)
  case 0
  then show ?case by simp
next
  case (Suc k)
  then have "paired (drop 2 (drop (2 * k) h))" by (intro paired_drop2) simp
  then show ?case by (simp add: add.commute)
qed

lemma fresh_run_history:
  assumes "history_of self u = []"
  shows "history_of (run_text_events self (exchange_events u xs)) u =
           drop (2 * length xs - 20) (exchange_turns xs)"
proof (induction xs rule: rev_induct)
  case Nil
  with assms show ?case by simp
next
  case (snoc x xs)
  obtain t r where x: "x = (t, r)" by (cases x)
  let ?s = "run_text_events self (exchange_events u xs)"
  have "history_of (fst (handle_text_message (always (Inr r)) ?s u t)) u =
          drop (length (history_of ?s u) + 2 - 20) (history_of ?s u @ [user_turn t, model_turn r])"
    by (rule handle_ok_history) (simp add: always_def)
  also have "\<dots> = drop (2 * length (xs @ [x]) - 20) (exchange_turns (xs @ [x]))"
  proof (cases "length xs < 10")
    case True
    then show ?thesis
      unfolding snoc.IH x exchange_turns_snoc by (simp add: length_exchange_turns)
  next
    case False
    then have "Suc (Suc (2 * length xs - 20)) = 2 * length xs - 18" by arith
    with False show ?thesis
      unfolding snoc.IH x exchange_turns_snoc by (simp add: length_exchange_turns)
  qed
  finally show ?case
    by (simp add: x exchange_events_snoc run_text_events_append)
qed

section \<open>The handlers: properties\<close>

text \<open>
  C3, as the specification states it: when the Gemini call of a text message fails,
  the user's history is as long after the event as before it. The user turn is
  appended at line 131, before the call, and the \<open>except\<close> branch does not take it
  back: a first message whose call fails leaves a history of length 1.
\<close>

theorem C3_failure_keeps_length_counterexample:
  "length (history_of (fst (handle_text_message (always (Inl (Exception [98, 111, 111, 109])))
             new_bot 1 [104, 105])) 1) = 1 \<and>
   length (history_of new_bot 1) = 0"
  by (simp add: handle_text_message_def always_def new_bot_def history_of_def)

text \<open>
  C3, amended. When the Gemini call of a text message fails, the user's history after
  the event is the history before it followed by the user turn of the event: one
  entry longer, and no model turn is appended. After the typing indicator, the only
  message sent is one error message, which contains the text of the exception.
\<close>

theorem C3_failure_keeps_user_turn:
  assumes "chat_send (history_of self user_id) user_text = Inl e"
  shows "history_of (fst (handle_text_message chat_send self user_id user_text)) user_id =
           history_of self user_id @ [user_turn user_text] \<and>
         length (history_of (fst (handle_text_message chat_send self user_id user_text)) user_id) =
           length (history_of self user_id) + 1 \<and>
         snd (handle_text_message chat_send self user_id user_text) =
           [ChatAction typing, ReplyText (text_error_message e)] \<and>
         (\<exists>before after. text_error_message e = before @ str_exn e @ after)"
proof -
  have "\<exists>before after. text_error_message e = before @ str_exn e @ after"
    unfolding text_error_message_def by blast
  with handle_fail [of chat_send self user_id user_text e, OF assms] show ?thesis by simp
qed

theorem C3_failure_keeps_user_turn_witness:
  "always (Inl (Exception [98, 111, 111, 109])) (history_of new_bot 1) [104, 105]
     = Inl (Exception [98, 111, 111, 109]) \<and>
   history_of (fst (handle_text_message (always (Inl (Exception [98, 111, 111, 109])))
             new_bot 1 [104, 105])) 1 = [user_turn [104, 105]] \<and>
   snd (handle_text_message (always (Inl (Exception [98, 111, 111, 109]))) new_bot 1 [104, 105]) =
     [ChatAction typing, ReplyText (text_error_message (Exception [98, 111, 111, 109]))]"
proof -
  have h: "always (Inl (Exception [98, 111, 111, 109])) (history_of new_bot 1) [104, 105]
             = Inl (Exception [98, 111, 111, 109])"
    by (simp add: always_def)
  have "history_of new_bot 1 = []" by (simp add: new_bot_def history_of_def)
  with C3_failure_keeps_user_turn
         [of "always (Inl (Exception [98, 111, 111, 109]))" new_bot 1 "[104, 105]"
             "Exception [98, 111, 111, 109]", OF h] h
  show ?thesis by simp
qed

text \<open>
  C2, as the specification states it: after any sequence of text messages, failed
  Gemini calls included, a user's history has at most 20 entries, and what is dropped
  is dropped in user+model pairs. The slice \<open>[-20:]\<close> of line 153 is reached only when
  the call succeeds: ten answered messages followed by one that fails leave 21
  entries, and the next answered message then keeps the last 20 of 23, a history
  that begins with a model turn.
\<close>

theorem C2_history_cap_counterexample:
  "length (history_of (run_text_events new_bot
      (exchange_events 1 (replicate 10 ([104, 105], [111, 107]))
       @ [(1, [104, 105], Inl (Exception [98, 111, 111, 109]))])) 1) = 21 \<and>
   role (hd (history_of (run_text_events new_bot
      (exchange_events 1 (replicate 10 ([104, 105], [111, 107]))
       @ [(1, [104, 105], Inl (Exception [98, 111, 111, 109])),
          (1, [104, 105], Inr [111, 107])])) 1)) = Model"
  by code_simp

text \<open>
  C2, amended. A text message whose Gemini call succeeds leaves the user with the
  last 20 entries of the history before it, the user turn and the model turn, so
  with at most 20 entries whatever the history was; when that history was made of
  user+model pairs and had at most 20 entries, what is dropped is nothing, or the
  oldest pair when it had exactly 20. Hence after any sequence of text messages whose
  Gemini calls all succeed, a history that had at most 20 entries in user+model pairs
  (the empty history of a new user is one) has at most 20 entries in user+model pairs.
\<close>

theorem C2_history_cap_after_success:
  "(chat_send (history_of self user_id) user_text = Inr response_text \<longrightarrow>
      history_of (fst (handle_text_message chat_send self user_id user_text)) user_id =
        drop (length (history_of self user_id) + 2 - 20)
             (history_of self user_id @ [user_turn user_text, model_turn response_text]) \<and>
      length (history_of (fst (handle_text_message chat_send self user_id user_text)) user_id) \<le> 20 \<and>
      (paired (history_of self user_id) \<and> length (history_of self user_id) \<le> 20 \<longrightarrow>
         history_of (fst (handle_text_message chat_send self user_id user_text)) user_id =
           (if length (history_of self user_id) = 20
            then drop 2 (history_of self user_id) else history_of self user_id)
           @ [user_turn user_text, model_turn response_text])) \<and>
   ((\<forall>ev\<in>set events. succeeded ev) \<and>
    paired (history_of self user_id) \<and> length (history_of self user_id) \<le> 20 \<longrightarrow>
      paired (history_of (run_text_events self events) user_id) \<and>
      length (history_of (run_text_events self events) user_id) \<le> 20)"
proof -
  have "history_of (fst (handle_text_message chat_send self user_id user_text)) user_id =
        drop (length (history_of self user_id) + 2 - 20)
             (history_of self user_id @ [user_turn user_text, model_turn response_text]) \<and>
      length (history_of (fst (handle_text_message chat_send self user_id user_text)) user_id) \<le> 20 \<and>
      (paired (history_of self user_id) \<and> length (history_of self user_id) \<le> 20 \<longrightarrow>
         history_of (fst (handle_text_message chat_send self user_id user_text)) user_id =
           (if length (history_of self user_id) = 20
            then drop 2 (history_of self user_id) else history_of self user_id)
           @ [user_turn user_text, model_turn response_text])"
    if ok: "chat_send (history_of self user_id) user_text = Inr response_text"
  proof -
    note h = handle_ok_history [of chat_send self user_id user_text response_text, OF ok]
    have "length (history_of (fst (handle_text_message chat_send self user_id user_text)) user_id) \<le> 20"
      unfolding h by simp
    moreover have "history_of (fst (handle_text_message chat_send self user_id user_text)) user_id =
           (if length (history_of self user_id) = 20
            then drop 2 (history_of self user_id) else history_of self user_id)
           @ [user_turn user_text, model_turn response_text]"
      if "paired (history_of self user_id)" "length (history_of self user_id) \<le> 20"
      unfolding h using that by (rule trim_pairs)
    ultimately show ?thesis using h by blast
  qed
  moreover have "paired (history_of (run_text_events self events) user_id) \<and>
      length (history_of (run_text_events self events) user_id) \<le> 20"
    if "\<forall>ev\<in>set events. succeeded ev"
      "paired (history_of self user_id)" "length (history_of self user_id) \<le> 20"
    using that by (rule run_all_ok_invariant)
  ultimately show ?thesis by blast
qed

theorem C2_history_cap_after_success_witness:
  "always (Inr [111, 107]) (history_of new_bot 1) [104, 105] = Inr [111, 107] \<and>
   list_all succeeded (exchange_events 1 (replicate 11 ([104, 105], [111, 107]))) \<and>
   paired (history_of new_bot 1) \<and> length (history_of new_bot 1) \<le> 20 \<and>
   history_of (fst (handle_text_message (always (Inr [111, 107])) new_bot 1 [104, 105])) 1 =
     [user_turn [104, 105], model_turn [111, 107]] \<and>
   paired (history_of (run_text_events new_bot
             (exchange_events 1 (replicate 11 ([104, 105], [111, 107])))) 1) \<and>
   length (history_of (run_text_events new_bot
             (exchange_events 1 (replicate 11 ([104, 105], [111, 107])))) 1) \<le> 20"
proof -
  let ?events = "exchange_events 1 (replicate 11 ([104, 105], [111, 107]))"
  have h1: "always (Inr [111, 107]) (history_of new_bot 1) [104, 105] = Inr [111, 107]"
    by (simp add: always_def)
  have h2: "\<forall>ev\<in>set ?events. succeeded ev" by code_simp
  have h3: "history_of new_bot 1 = []" by (simp add: new_bot_def history_of_def)
  have h4: "paired (history_of new_bot 1) \<and> length (history_of new_bot 1) \<le> 20"
    unfolding h3 by simp
  from C2_history_cap_after_success
         [of "always (Inr [111, 107])" new_bot 1 "[104, 105]" "[111, 107]" ?events] h1 h2 h4
  have "history_of (fst (handle_text_message (always (Inr [111, 107])) new_bot 1 [104, 105])) 1 =
          (if length (history_of new_bot 1) = 20
           then drop 2 (history_of new_bot 1) else history_of new_bot 1)
          @ [user_turn [104, 105], model_turn [111, 107]]"
    and "paired (history_of (run_text_events new_bot ?events) 1) \<and>
         length (history_of (run_text_events new_bot ?events) 1) \<le> 20"
    by blast+
  with h1 h2 h4 show ?thesis by (simp add: h3 list_all_iff)
qed

text \<open>
  C6. For a user whose history is empty, after \<open>N\<close> exchanges (a user turn and a
  model turn appended in each, \<open>2N\<close> turns in all) the history is the last
  \<open>min(2N, 20)\<close> of those turns: its length is exactly \<open>min(2N, 20)\<close> and even, it is
  made of user+model pairs, and when \<open>N > 0\<close> it starts with a user turn. After 11
  exchanges its length is 20 and it holds the turns of exchanges 2 to 11: the two
  turns of the first exchange are gone.
\<close>

theorem C6_alternating_exchanges:
  assumes "history_of self user_id = []"
  shows "history_of (run_text_events self (exchange_events user_id exchanges)) user_id =
           drop (2 * length exchanges - 20) (exchange_turns exchanges) \<and>
         length (history_of (run_text_events self (exchange_events user_id exchanges)) user_id) =
           min (2 * length exchanges) 20 \<and>
         even (length (history_of (run_text_events self (exchange_events user_id exchanges)) user_id)) \<and>
         paired (history_of (run_text_events self (exchange_events user_id exchanges)) user_id) \<and>
         (exchanges \<noteq> [] \<longrightarrow>
            role (hd (history_of (run_text_events self (exchange_events user_id exchanges)) user_id)) = User) \<and>
         (length exchanges = 11 \<longrightarrow>
            length (history_of (run_text_events self (exchange_events user_id exchanges)) user_id) = 20 \<and>
            history_of (run_text_events self (exchange_events user_id exchanges)) user_id =
              exchange_turns (tl exchanges))"
proof -
  let ?h = "history_of (run_text_events self (exchange_events user_id exchanges)) user_id"
  have h: "?h = drop (2 * length exchanges - 20) (exchange_turns exchanges)"
    using assms by (rule fresh_run_history)
  have len: "length ?h = min (2 * length exchanges) 20"
    unfolding h by (simp add: length_exchange_turns)
  have ev: "even (length ?h)" unfolding len by (simp add: min_def)
  have "2 * length exchanges - 20 = 2 * (length exchanges - 10)" by simp
  then have pr: "paired ?h"
    unfolding h using paired_drop_even [OF paired_exchange_turns] by simp
  have first: "role (hd ?h) = User" if "exchanges \<noteq> []"
  proof -
    from that len have "?h \<noteq> []" by (cases exchanges) auto
    with pr show ?thesis by (rule paired_hd)
  qed
  have eleven: "length ?h = 20 \<and> ?h = exchange_turns (tl exchanges)" if "length exchanges = 11"
  proof -
    from that obtain t r rest where "exchanges = (t, r) # rest" by (cases exchanges) auto
    with that h len show ?thesis by simp
  qed
  from h len ev pr first eleven show ?thesis by blast
qed

theorem C6_alternating_exchanges_witness:
  "history_of new_bot 1 = [] \<and>
   length [([49], [97]), ([50], [98]), ([51], [99]), ([52], [100]), ([53], [101]), ([54], [102]),
           ([55], [103]), ([56], [104]), ([57], [105]), ([58], [106]), ([59], [107::nat])] = 11 \<and>
   length (history_of (run_text_events new_bot (exchange_events 1
      [([49], [97]), ([50], [98]), ([51], [99]), ([52], [100]), ([53], [101]), ([54], [102]),
       ([55], [103]), ([56], [104]), ([57], [105]), ([58], [106]), ([59], [107])])) 1) = 20 \<and>
   hd (history_of (run_text_events new_bot (exchange_events 1
      [([49], [97]), ([50], [98]), ([51], [99]), ([52], [100]), ([53], [101]), ([54], [102]),
       ([55], [103]), ([56], [104]), ([57], [105]), ([58], [106]), ([59], [107])])) 1)
     = user_turn [50] \<and>
   user_turn [49] \<notin> set (history_of (run_text_events new_bot (exchange_events 1
      [([49], [97]), ([50], [98]), ([51], [99]), ([52], [100]), ([53], [101]), ([54], [102]),
       ([55], [103]), ([56], [104]), ([57], [105]), ([58], [106]), ([59], [107])])) 1) \<and>
   model_turn [97] \<notin> set (history_of (run_text_events new_bot (exchange_events 1
      [([49], [97]), ([50], [98]), ([51], [99]), ([52], [100]), ([53], [101]), ([54], [102]),
       ([55], [103]), ([56], [104]), ([57], [105]), ([58], [106]), ([59], [107])])) 1)"
proof -
  let ?xs = "[([49], [97]), ([50], [98]), ([51], [99]), ([52], [100]), ([53], [101]), ([54], [102]),
              ([55], [103]), ([56], [104]), ([57], [105]), ([58], [106]), ([59], [107::nat])]
             :: (pystr \<times> pystr) list"
  have h: "history_of new_bot 1 = []" by (simp add: new_bot_def history_of_def)
  have n: "length ?xs = 11" by simp
  from C6_alternating_exchanges [of new_bot 1 ?xs, OF h] n
  have "history_of (run_text_events new_bot (exchange_events 1 ?xs)) 1 = exchange_turns (tl ?xs)"
    by blast
  then show ?thesis using h by (simp add: user_turn_def model_turn_def)
qed

text \<open>
  C8. Handling a photo message, whether fetching the image or the vision call
  succeeds or fails, returns the bot unchanged, so no user's history changes; and
  what is sent does not depend on the bot, so no history is read.
\<close>

theorem C8_photo_leaves_history:
  "fst (handle_photo_message generate_content self photo caption) = self \<and>
   chat_history (fst (handle_photo_message generate_content self photo caption)) = chat_history self \<and>
   snd (handle_photo_message generate_content self photo caption) =
     snd (handle_photo_message generate_content other photo caption)"
  by (simp add: handle_photo_message_def split: sum.splits)

text \<open>
  C9. A caption that is the empty string gives the default prompt, as a missing
  caption does, and the default prompt is not the empty string; a non-empty caption
  is the prompt itself. So the handler does the same on an empty caption as on a
  missing one: once the image is there, it calls the vision model with the default
  prompt.
\<close>

theorem C9_empty_caption_default_prompt:
  "photo_prompt (Some []) = default_prompt \<and>
   photo_prompt None = default_prompt \<and>
   default_prompt \<noteq> [] \<and>
   photo_prompt (Some (c # cs)) = c # cs \<and>
   handle_photo_message generate_content self photo (Some []) =
     handle_photo_message generate_content self photo None \<and>
   handle_photo_message generate_content self (Inr img) (Some []) =
     (case generate_content default_prompt img of
        Inl e \<Rightarrow> (self, [ChatAction typing, ReplyText (image_error_message e)])
      | Inr response_text \<Rightarrow>
          (self, ChatAction typing # map ReplyText (send_long_message (image_label @ response_text))))"
  by (cases photo) (simp_all add: handle_photo_message_def photo_prompt_def default_prompt_def)

end
